theory Spec2Isabelle
  imports Main "HOL-Library.Sublist"
begin

section \<open>The in-process notification bus of routers/notifications.py\<close>

text \<open>
  The embedding follows \<^verbatim>\<open>src/routers/notifications.py\<close>: the class
  \<^verbatim>\<open>NotificationEvent\<close>, the class \<^verbatim>\<open>EventStore\<close> with its four methods, and the
  generator \<^verbatim>\<open>event_generator\<close> of the streaming endpoint. Mutation of the store is
  explicit state passing; the \<^verbatim>\<open>asyncio.Queue\<close> objects live in an explicit heap,
  addressed by identity, because \<^verbatim>\<open>list.remove(queue)\<close> compares queues by
  identity.
\<close>

subsection \<open>Events\<close>

datatype NotificationType =
  MESSAGE_RECEIVED
| CONVERSATION_UPDATED
| USER_JOINED
| USER_LEFT
| SYSTEM_NOTIFICATION

text \<open>
  The value of each member of the \<^verbatim>\<open>str\<close>-mixin enumeration. It is what the
  f-string of line 39 renders for a \<^verbatim>\<open>(str, Enum)\<close> member (Python up to 3.10).
\<close>

fun type_value :: "NotificationType \<Rightarrow> string" where
  "type_value MESSAGE_RECEIVED = ''message_received''"
| "type_value CONVERSATION_UPDATED = ''conversation_updated''"
| "type_value USER_JOINED = ''user_joined''"
| "type_value USER_LEFT = ''user_left''"
| "type_value SYSTEM_NOTIFICATION = ''system_notification''"

text \<open>
  The fields of \<^verbatim>\<open>NotificationEvent\<close>. The payload \<^verbatim>\<open>data\<close> is opaque to the bus
  and is a type parameter; \<^verbatim>\<open>user_id\<close> and \<^verbatim>\<open>conversation_id\<close> default to
  \<^verbatim>\<open>None\<close>.
\<close>

record 'd NotificationEvent =
  event_type :: NotificationType
  data :: 'd
  user_id :: "string option"
  conversation_id :: "string option"
  timestamp :: string
  event_id :: string

text \<open>Python's \<^verbatim>\<open>str\<close> of an \<^verbatim>\<open>int\<close>: decimal digits, a minus sign when negative.\<close>

definition digit_char :: "nat \<Rightarrow> char" where
  "digit_char d = char_of (48 + d)"

function digits :: "nat \<Rightarrow> string" where
  "digits n = (if n < 10 then [digit_char n] else digits (n div 10) @ [digit_char (n mod 10)])"
  by pat_completeness auto
termination
  by (relation "measure (\<lambda>n. n)") auto

declare digits.simps [simp del]

definition str_int :: "int \<Rightarrow> string" where
  "str_int i = (if i < 0 then CHR ''-'' # digits (nat (- i)) else digits (nat i))"

text \<open>
  \<^verbatim>\<open>NotificationEvent.__init__\<close>. The constructor reads the clock twice; the two
  readings are parameters: \<open>now_iso\<close> is \<^verbatim>\<open>datetime.utcnow().isoformat()\<close> and
  \<open>now_ms\<close> is the integer \<^verbatim>\<open>int(datetime.utcnow().timestamp() * 1000)\<close>.
\<close>

definition new_event ::
  "NotificationType \<Rightarrow> 'd \<Rightarrow> string option \<Rightarrow> string option \<Rightarrow> string \<Rightarrow> int \<Rightarrow> 'd NotificationEvent" where
  "new_event et d uid cid now_iso now_ms =
     \<lparr> event_type = et, data = d, user_id = uid, conversation_id = cid,
       timestamp = now_iso,
       event_id = type_value et @ ''_'' @ str_int now_ms \<rparr>"

subsection \<open>Python list and dictionary primitives\<close>

datatype py_error = ValueError | KeyError

text \<open>
  The slice \<^verbatim>\<open>xs[i:]\<close>: a negative start counts from the end and is clamped at
  the front, a start beyond the end gives the empty list.
\<close>

definition slice_from :: "'a list \<Rightarrow> int \<Rightarrow> 'a list" where
  "slice_from xs i =
     (let n = int (length xs);
          j = (if i < 0 then max (n + i) 0 else min i n)
      in drop (nat j) xs)"

text \<open>\<^verbatim>\<open>list.remove(x)\<close>: deletes the first occurrence, raises \<^verbatim>\<open>ValueError\<close> when there is none.\<close>

definition list_remove :: "'a list \<Rightarrow> 'a \<Rightarrow> py_error + 'a list" where
  "list_remove xs x = (if x \<in> set xs then Inr (remove1 x xs) else Inl ValueError)"

text \<open>\<^verbatim>\<open>del d[k]\<close>: raises \<^verbatim>\<open>KeyError\<close> when the key is absent.\<close>

definition dict_del :: "('k \<rightharpoonup> 'v) \<Rightarrow> 'k \<Rightarrow> py_error + ('k \<rightharpoonup> 'v)" where
  "dict_del m k = (case m k of None \<Rightarrow> Inl KeyError | Some _ \<Rightarrow> Inr (m(k := None)))"

subsection \<open>The event store\<close>

type_synonym qid = nat

text \<open>
  \<^verbatim>\<open>EventStore\<close>: the list \<^verbatim>\<open>events\<close>, the dictionary \<^verbatim>\<open>subscribers\<close> from a
  user id to the list of its queues, and the heap of queue objects: \<open>queues q\<close> is the
  content of the queue with identity \<open>q\<close>, oldest item first, and \<open>next_qid\<close> is the
  identity the next \<^verbatim>\<open>asyncio.Queue(maxsize=100)\<close> receives.
\<close>

record 'd EventStore =
  events :: "'d NotificationEvent list"
  subscribers :: "string \<rightharpoonup> qid list"
  queues :: "qid \<Rightarrow> 'd NotificationEvent list"
  next_qid :: qid

definition init_store :: "'d EventStore" where
  "init_store = \<lparr> events = [], subscribers = Map.empty, queues = (\<lambda>_. []), next_qid = 0 \<rparr>"

definition log_capacity :: nat where
  "log_capacity = 1000"

definition queue_maxsize :: nat where
  "queue_maxsize = 100"

text \<open>Lines 59 to 63: append, then keep the last 1000 when the list has grown past 1000.\<close>

definition append_event :: "'d NotificationEvent list \<Rightarrow> 'd NotificationEvent \<Rightarrow> 'd NotificationEvent list" where
  "append_event es e =
     (let es' = es @ [e]
      in if length es' > log_capacity then slice_from es' (- int log_capacity) else es')"

text \<open>
  \<^verbatim>\<open>await queue.put(event)\<close> on an \<^verbatim>\<open>asyncio.Queue\<close>: the item is appended when the
  queue holds fewer than \<^verbatim>\<open>maxsize\<close> items; on a full queue \<^verbatim>\<open>put\<close> raises nothing and
  the caller is suspended until a consumer frees a slot.
\<close>

datatype 'a put_result = Put_done 'a | Put_waits

definition queue_put :: "'a list \<Rightarrow> 'a \<Rightarrow> 'a list put_result" where
  "queue_put items x = (if length items \<ge> queue_maxsize then Put_waits else Put_done (items @ [x]))"

text \<open>
  The outcome of \<^verbatim>\<open>publish_event\<close>: it returns, or the publishing task is suspended
  inside the loop at the \<^verbatim>\<open>put\<close> on one queue, with the queues that follow it in
  the list not yet served.
\<close>

datatype 'd publish_outcome =
  is_Returned: Returned "'d EventStore"
| Suspended "'d EventStore" (blocked_on: qid) (pending: "qid list")

text \<open>The loop of lines 68 to 72 over the queues registered under the routing key.\<close>

fun notify :: "'d EventStore \<Rightarrow> qid list \<Rightarrow> 'd NotificationEvent \<Rightarrow> 'd publish_outcome" where
  "notify s [] e = Returned s"
| "notify s (q # qs) e =
     (case queue_put (queues s q) e of
        Put_waits \<Rightarrow> Suspended s q qs
      | Put_done items \<Rightarrow> notify (s\<lparr>queues := (queues s)(q := items)\<rparr>) qs e)"

text \<open>\<^verbatim>\<open>event.user_id or "global"\<close>: \<^verbatim>\<open>None\<close> and the empty string are both falsy.\<close>

definition routing_key :: "'d NotificationEvent \<Rightarrow> string" where
  "routing_key e = (case user_id e of None \<Rightarrow> ''global'' | Some u \<Rightarrow> if u = [] then ''global'' else u)"

definition publish_event :: "'d EventStore \<Rightarrow> 'd NotificationEvent \<Rightarrow> 'd publish_outcome" where
  "publish_event s e =
     (let s1 = s\<lparr>events := append_event (events s) e\<rparr>;
          k = routing_key e
      in case subscribers s1 k of
           None \<Rightarrow> Returned s1
         | Some qs \<Rightarrow> notify s1 qs e)"

text \<open>The store as the publisher leaves it, when it returns or where it is suspended.\<close>

fun store_of :: "'d publish_outcome \<Rightarrow> 'd EventStore" where
  "store_of (Returned s) = s"
| "store_of (Suspended s q qs) = s"

text \<open>\<^verbatim>\<open>subscribe\<close>: a new queue, appended to the list of the user, created when absent.\<close>

definition subscribe :: "'d EventStore \<Rightarrow> string \<Rightarrow> qid \<times> 'd EventStore" where
  "subscribe s uid =
     (let subs = (case subscribers s uid of None \<Rightarrow> (subscribers s)(uid \<mapsto> []) | Some _ \<Rightarrow> subscribers s);
          q = next_qid s;
          qs = (case subs uid of None \<Rightarrow> [] | Some l \<Rightarrow> l)
      in (q, s\<lparr>subscribers := subs(uid \<mapsto> qs @ [q]),
                queues := (queues s)(q := []),
                next_qid := Suc q\<rparr>))"

text \<open>
  \<^verbatim>\<open>unsubscribe\<close>: the body of the \<^verbatim>\<open>try\<close> is \<open>unsubscribe_body\<close>; the handler
  catches \<^verbatim>\<open>ValueError\<close> only, every other exception would leave the method.
\<close>

definition unsubscribe_body :: "'d EventStore \<Rightarrow> string \<Rightarrow> qid \<Rightarrow> py_error + 'd EventStore" where
  "unsubscribe_body s uid q =
     (case subscribers s uid of
        None \<Rightarrow> Inl KeyError
      | Some qs \<Rightarrow>
          (case list_remove qs q of
             Inl err \<Rightarrow> Inl err
           | Inr qs' \<Rightarrow>
               (let s1 = s\<lparr>subscribers := (subscribers s)(uid \<mapsto> qs')\<rparr>
                in if qs' = [] then
                     (case dict_del (subscribers s1) uid of
                        Inl err \<Rightarrow> Inl err
                      | Inr m \<Rightarrow> Inr (s1\<lparr>subscribers := m\<rparr>))
                   else Inr s1)))"

definition unsubscribe :: "'d EventStore \<Rightarrow> string \<Rightarrow> qid \<Rightarrow> py_error + 'd EventStore" where
  "unsubscribe s uid q =
     (if uid \<in> dom (subscribers s) then
        (case unsubscribe_body s uid q of
           Inl ValueError \<Rightarrow> Inr s
         | Inl err \<Rightarrow> Inl err
         | Inr s' \<Rightarrow> Inr s')
      else Inr s)"

text \<open>\<^verbatim>\<open>get_recent_events\<close>: the comprehension of line 95, then the slice \<^verbatim>\<open>[-limit:]\<close>.\<close>

definition matches :: "string \<Rightarrow> 'd NotificationEvent \<Rightarrow> bool" where
  "matches uid e = (user_id e = Some uid \<or> user_id e = None)"

definition channels :: "'d EventStore \<Rightarrow> string \<Rightarrow> qid list" where
  "channels s uid = (case subscribers s uid of None \<Rightarrow> [] | Some qs \<Rightarrow> qs)"

definition registered :: "'d EventStore \<Rightarrow> qid \<Rightarrow> bool" where
  "registered s q = (\<exists>k qs. subscribers s k = Some qs \<and> q \<in> set qs)"

definition get_recent_events :: "'d EventStore \<Rightarrow> string \<Rightarrow> int \<Rightarrow> 'd NotificationEvent list" where
  "get_recent_events s uid limit =
     (let user_events = filter (matches uid) (events s)
      in slice_from user_events (- limit))"

subsection \<open>The streaming generator\<close>

text \<open>
  \<^verbatim>\<open>event_generator\<close> is an asynchronous generator: it runs only when its consumer
  asks for the next chunk, and it rests at a \<^verbatim>\<open>yield\<close> or at the
  \<^verbatim>\<open>await asyncio.wait_for(queue.get(), timeout=30.0)\<close>. The program counter names the
  three \<^verbatim>\<open>yield\<close>s, the \<^verbatim>\<open>await\<close>, and the two ends.
\<close>

datatype gen_pc =
  Not_started
| Yield_connected
| Waiting
| Yield_event
| Yield_heartbeat
| Finished

text \<open>What the generator has yielded: each chunk is sent as \<^verbatim>\<open>data: <json>\n\n\<close>.\<close>

datatype sse_chunk =
  Connected_chunk string
| Event_chunk string
| Heartbeat_chunk string

text \<open>
  The closure variable \<^verbatim>\<open>user_id\<close>, the program counter, the local variable
  \<^verbatim>\<open>queue\<close> once it is assigned, and the chunks yielded so far.
\<close>

record connection =
  conn_user :: string
  conn_pc :: gen_pc
  conn_queue :: "qid option"
  conn_out :: "sse_chunk list"

text \<open>
  What can happen to a resting generator: the consumer asks for the next chunk; the
  awaited \<^verbatim>\<open>queue.get()\<close> delivers; \<^verbatim>\<open>wait_for\<close> raises \<^verbatim>\<open>TimeoutError\<close> (the
  argument is the clock reading of the heartbeat); the \<^verbatim>\<open>await\<close> raises another
  \<^verbatim>\<open>Exception\<close>; the task is cancelled at the \<^verbatim>\<open>await\<close>; the generator is closed
  at a \<^verbatim>\<open>yield\<close> (\<^verbatim>\<open>GeneratorExit\<close>).
\<close>

datatype signal =
  Next
| Got_item
| Timed_out string
| Await_error
| Cancelled
| Closed

text \<open>The \<^verbatim>\<open>finally\<close> clause of line 149.\<close>

definition finish :: "'d EventStore \<Rightarrow> connection \<Rightarrow> 'd EventStore \<times> connection" where
  "finish s c =
     (case conn_queue c of
        None \<Rightarrow> (s, c\<lparr>conn_pc := Finished\<rparr>)
      | Some q \<Rightarrow>
          (case unsubscribe s (conn_user c) q of
             Inr s' \<Rightarrow> (s', c\<lparr>conn_pc := Finished\<rparr>)
           | Inl err \<Rightarrow> (s, c\<lparr>conn_pc := Finished\<rparr>)))"

text \<open>
  One step of the generator. \<open>dumps\<close> is \<^verbatim>\<open>json.dumps(event.to_dict())\<close>, \<open>None\<close>
  when it raises on a payload that is not serialisable. A signal that cannot occur at
  the program counter leaves everything as it is.
\<close>

fun gen_step ::
  "('d NotificationEvent \<Rightarrow> string option) \<Rightarrow> 'd EventStore \<times> connection \<Rightarrow> signal
     \<Rightarrow> 'd EventStore \<times> connection" where
  "gen_step dumps (s, c) sig =
     (case (conn_pc c, sig) of
        (Not_started, Next) \<Rightarrow>
          (let (q, s') = subscribe s (conn_user c)
           in (s', c\<lparr>conn_pc := Yield_connected, conn_queue := Some q,
                      conn_out := conn_out c @ [Connected_chunk (conn_user c)]\<rparr>))
      | (Not_started, Closed) \<Rightarrow> (s, c\<lparr>conn_pc := Finished\<rparr>)
      | (Yield_connected, Next) \<Rightarrow> (s, c\<lparr>conn_pc := Waiting\<rparr>)
      | (Yield_event, Next) \<Rightarrow> (s, c\<lparr>conn_pc := Waiting\<rparr>)
      | (Yield_heartbeat, Next) \<Rightarrow> (s, c\<lparr>conn_pc := Waiting\<rparr>)
      | (Yield_connected, Closed) \<Rightarrow> finish s c
      | (Yield_event, Closed) \<Rightarrow> finish s c
      | (Yield_heartbeat, Closed) \<Rightarrow> finish s c
      | (Waiting, Got_item) \<Rightarrow>
          (case conn_queue c of
             None \<Rightarrow> (s, c)
           | Some q \<Rightarrow>
               (case queues s q of
                  [] \<Rightarrow> (s, c)
                | x # xs \<Rightarrow>
                    (let s' = s\<lparr>queues := (queues s)(q := xs)\<rparr>
                     in case dumps x of
                          None \<Rightarrow> finish s' c
                        | Some j \<Rightarrow>
                            (s', c\<lparr>conn_pc := Yield_event,
                                     conn_out := conn_out c @ [Event_chunk j]\<rparr>))))
      | (Waiting, Timed_out now_iso) \<Rightarrow>
          (s, c\<lparr>conn_pc := Yield_heartbeat,
                 conn_out := conn_out c @ [Heartbeat_chunk now_iso]\<rparr>)
      | (Waiting, Await_error) \<Rightarrow> finish s c
      | (Waiting, Cancelled) \<Rightarrow> finish s c
      | _ \<Rightarrow> (s, c))"

subsection \<open>The process: one store, many connections, many publishers\<close>

record 'd system =
  store :: "'d EventStore"
  conns :: "connection list"

datatype 'd action =
  Open string
| Gen nat signal
| Publish "'d NotificationEvent"

definition init_system :: "'d system" where
  "init_system = \<lparr> store = init_store, conns = [] \<rparr>"

definition new_connection :: "string \<Rightarrow> connection" where
  "new_connection uid = \<lparr> conn_user = uid, conn_pc = Not_started, conn_queue = None, conn_out = [] \<rparr>"

fun sys_step :: "('d NotificationEvent \<Rightarrow> string option) \<Rightarrow> 'd system \<Rightarrow> 'd action \<Rightarrow> 'd system" where
  "sys_step dumps sys (Open uid) = sys\<lparr>conns := conns sys @ [new_connection uid]\<rparr>"
| "sys_step dumps sys (Gen i sig) =
     (if i < length (conns sys) then
        (let (s', c') = gen_step dumps (store sys, conns sys ! i) sig
         in sys\<lparr>store := s', conns := (conns sys)[i := c']\<rparr>)
      else sys)"
| "sys_step dumps sys (Publish e) = sys\<lparr>store := store_of (publish_event (store sys) e)\<rparr>"

definition run :: "('d NotificationEvent \<Rightarrow> string option) \<Rightarrow> 'd system \<Rightarrow> 'd action list \<Rightarrow> 'd system" where
  "run dumps sys acts = foldl (sys_step dumps) sys acts"

definition publish_all :: "'d EventStore \<Rightarrow> 'd NotificationEvent list \<Rightarrow> 'd EventStore" where
  "publish_all s evs = foldl (\<lambda>s e. store_of (publish_event s e)) s evs"

subsection \<open>Invariants of the registry\<close>

text \<open>
  Predicates used to state what every reachable state of the process satisfies. Every
  registered queue has been allocated; a generator that has not started holds no
  queue; a connection's queue is registered under the connection's own user only,
  once, and not at all after the generator has finished.
\<close>

definition store_ok :: "'d EventStore \<Rightarrow> bool" where
  "store_ok s = (\<forall>k qs. subscribers s k = Some qs \<longrightarrow> (\<forall>q \<in> set qs. q < next_qid s))"

definition conn_ok :: "'d EventStore \<Rightarrow> connection \<Rightarrow> bool" where
  "conn_ok s c =
     (case conn_queue c of
        None \<Rightarrow> True
      | Some q \<Rightarrow>
          conn_pc c \<noteq> Not_started \<and> q < next_qid s \<and>
          (\<forall>k qs. subscribers s k = Some qs \<and> q \<in> set qs \<longrightarrow>
             k = conn_user c \<and> conn_pc c \<noteq> Finished \<and> count_list qs q = 1))"

definition sys_inv :: "'d system \<Rightarrow> bool" where
  "sys_inv sys = (store_ok (store sys) \<and> (\<forall>c \<in> set (conns sys). conn_ok (store sys) c))"

text \<open>What one step of a generator must preserve, for itself and for every other connection.\<close>

definition step_ok :: "'d EventStore \<Rightarrow> connection \<Rightarrow> 'd EventStore \<times> connection \<Rightarrow> bool" where
  "step_ok s c r = (store_ok (fst r) \<and> conn_ok (fst r) (snd r) \<and> (\<forall>d. conn_ok s d \<longrightarrow> conn_ok (fst r) d))"

subsection \<open>Example inputs\<close>

text \<open>Concrete events and stores at which the theorems below are instantiated.\<close>

definition numbered_event :: "nat \<Rightarrow> unit NotificationEvent" where
  "numbered_event i = new_event SYSTEM_NOTIFICATION () None None [] (int i)"

definition hi_event :: "(string \<times> string) list NotificationEvent" where
  "hi_event = new_event MESSAGE_RECEIVED [(''text'', ''hi'')] (Some ''u1'') None ''2024-01-01T00:00:00'' 1704067200000"

type_synonym payload = "(string \<times> string) list"

definition u2_event :: "payload NotificationEvent" where
  "u2_event = new_event MESSAGE_RECEIVED [(''text'', ''yo'')] (Some ''u2'') None ''2024-01-01T00:00:01'' 1704067201000"

definition broadcast_event :: "payload NotificationEvent" where
  "broadcast_event = new_event SYSTEM_NOTIFICATION [(''text'', ''all'')] None None ''2024-01-01T00:00:02'' 1704067202000"

definition empty_uid_event :: "payload NotificationEvent" where
  "empty_uid_event = new_event USER_JOINED [] (Some []) None ''2024-01-01T00:00:03'' 1704067203000"

definition u1_store :: "payload EventStore" where
  "u1_store = snd (subscribe init_store ''u1'')"

definition full_store :: "payload EventStore" where
  "full_store =
     \<lparr> events = [], subscribers = [''u1'' \<mapsto> [0, 1]],
       queues = (\<lambda>_. [])(0 := replicate 100 hi_event), next_qid = 2 \<rparr>"

definition two_key_store :: "payload EventStore" where
  "two_key_store = snd (subscribe (snd (subscribe init_store [])) ''global'')"

definition close_trace :: "payload action list" where
  "close_trace = [Open ''u1'', Gen 0 Next, Gen 0 Next, Publish hi_event, Gen 0 Got_item, Gen 0 Closed]"

definition dumps_id :: "payload NotificationEvent \<Rightarrow> string option" where
  "dumps_id e = Some (event_id e)"

(*EXAMPLES*)

section \<open>Properties\<close>

subsection \<open>The event log\<close>


lemma slice_from_neg: "0 < n \<Longrightarrow> slice_from xs (- int n) = drop (length xs - n) xs"
  by (simp add: slice_from_def Let_def max_def nat_diff_distrib')

lemma slice_from_nonneg: "slice_from xs (int k) = drop k xs"
  by (simp add: slice_from_def Let_def min_def)

lemma append_event_drop:
  "append_event es e = drop (Suc (length es) - log_capacity) (es @ [e])"
proof -
  have "slice_from (es @ [e]) (- int log_capacity) = drop (length (es @ [e]) - log_capacity) (es @ [e])"
    by (rule slice_from_neg) (simp add: log_capacity_def)
  then show ?thesis
    by (simp add: append_event_def Let_def del: drop_append)
qed

lemma length_append_event: "length (append_event es e) = min (Suc (length es)) log_capacity"
  by (simp add: append_event_drop log_capacity_def del: drop_append)

lemma notify_events [simp]: "events (store_of (notify s qs e)) = events s"
  by (induction qs arbitrary: s) (auto simp: queue_put_def)

lemma notify_subscribers [simp]: "subscribers (store_of (notify s qs e)) = subscribers s"
  by (induction qs arbitrary: s) (auto simp: queue_put_def)

lemma notify_next_qid [simp]: "next_qid (store_of (notify s qs e)) = next_qid s"
  by (induction qs arbitrary: s) (auto simp: queue_put_def)

lemma publish_events: "events (store_of (publish_event s e)) = append_event (events s) e"
  by (simp add: publish_event_def Let_def split: option.splits)

lemma publish_subscribers [simp]: "subscribers (store_of (publish_event s e)) = subscribers s"
  by (simp add: publish_event_def Let_def split: option.splits)

lemma publish_next_qid [simp]: "next_qid (store_of (publish_event s e)) = next_qid s"
  by (simp add: publish_event_def Let_def split: option.splits)

lemma events_publish_all: "events (publish_all s evs) = foldl append_event (events s) evs"
  unfolding publish_all_def
  by (induction evs arbitrary: s) (simp_all add: publish_events)

lemma foldl_append_event:
  "length es \<le> log_capacity \<Longrightarrow>
   foldl append_event es evs = drop (length es + length evs - log_capacity) (es @ evs)"
proof (induction evs arbitrary: es)
  case Nil
  then show ?case by simp
next
  case (Cons e evs)
  let ?d = "Suc (length es) - log_capacity"
  let ?es1 = "append_event es e"
  have es1: "?es1 = drop ?d (es @ [e])" by (rule append_event_drop)
  have len1: "length ?es1 \<le> log_capacity" by (simp add: length_append_event)
  have d_le: "?d \<le> length (es @ [e])" by simp
  have "foldl append_event (es) (e # evs) = foldl append_event ?es1 evs" by simp
  also have "\<dots> = drop (length ?es1 + length evs - log_capacity) (?es1 @ evs)"
    using Cons.IH [OF len1] .
  also have "?es1 @ evs = drop ?d ((es @ [e]) @ evs)"
    using d_le by (simp add: es1 del: append_assoc)
  also have "drop (length ?es1 + length evs - log_capacity) (drop ?d ((es @ [e]) @ evs))
      = drop (length ?es1 + length evs - log_capacity + ?d) ((es @ [e]) @ evs)"
    by (simp only: drop_drop)
  also have "length ?es1 + length evs - log_capacity + ?d = length es + length (e # evs) - log_capacity"
    using Cons.prems by (simp add: length_append_event min_def add.commute)
  finally show ?case by simp
qed


text \<open>
  C4. After every \<^verbatim>\<open>publish_event\<close> the log holds at most 1000 events; a sequence of
  publishes on a log within capacity leaves the last 1000 of the old log followed by
  the published events, in publish order; from the empty store, more than 1000
  publishes leave exactly 1000 events, the first of which is the one published
  1000 places before the end (the 6th of 1005).
\<close>

theorem log_bounded_fifo:
  "length (events (store_of (publish_event s e))) \<le> 1000
   \<and> (length (events s) \<le> 1000 \<longrightarrow>
        events (publish_all s evs) = drop (length (events s) + length evs - 1000) (events s @ evs))
   \<and> events (publish_all init_store evs) = drop (length evs - 1000) evs
   \<and> (1000 < length evs \<longrightarrow>
        length (events (publish_all init_store evs)) = 1000
        \<and> hd (events (publish_all init_store evs)) = evs ! (length evs - 1000))"
proof -
  have a: "length (events (store_of (publish_event s e))) \<le> 1000"
    by (simp add: publish_events length_append_event log_capacity_def)
  have b: "events (publish_all s evs) = drop (length (events s) + length evs - 1000) (events s @ evs)"
    if "length (events s) \<le> 1000" for s :: "'a EventStore"
    using that foldl_append_event [of "events s" evs]
    by (simp add: events_publish_all log_capacity_def)
  have c: "events (publish_all init_store evs) = drop (length evs - 1000) evs"
    using b [of init_store] by (simp add: init_store_def)
  have d: "hd (drop (length evs - 1000) evs) = evs ! (length evs - 1000)" if "1000 < length evs"
    using that by (simp add: hd_drop_conv_nth)
  show ?thesis using a b c d by simp
qed

theorem log_bounded_fifo_witness:
  "length (events (init_store :: unit EventStore)) \<le> 1000
   \<and> 1000 < length (map numbered_event [0..<1005])
   \<and> length (events (publish_all init_store (map numbered_event [0..<1005]))) = 1000
   \<and> hd (events (publish_all init_store (map numbered_event [0..<1005]))) = numbered_event 5
   \<and> numbered_event 5 \<noteq> numbered_event 0"
proof -
  have len: "1000 < length (map numbered_event [0..<1005])" by simp
  have init: "length (events (init_store :: unit EventStore)) \<le> 1000"
    by (simp add: init_store_def)
  have nth: "map numbered_event [0..<1005] ! (length (map numbered_event [0..<1005]) - 1000) = numbered_event 5"
    by simp
  have ne: "numbered_event 5 \<noteq> numbered_event 0"
    by (simp add: numbered_event_def new_event_def str_int_def digit_char_def
        digits.simps [of 5] digits.simps [of 0])
  from log_bounded_fifo [of init_store "numbered_event 0" "map numbered_event [0..<1005]"] len
  have "length (events (publish_all init_store (map numbered_event [0..<1005]))) = 1000"
    and "hd (events (publish_all init_store (map numbered_event [0..<1005])))
           = map numbered_event [0..<1005] ! (length (map numbered_event [0..<1005]) - 1000)"
    by blast+
  with len init ne nth show ?thesis by (simp only:) simp
qed

text \<open>
  C5. For a limit of at least 1, \<^verbatim>\<open>get_recent_events\<close> returns the last \<open>limit\<close> of
  the events whose \<^verbatim>\<open>user_id\<close> is the recipient or \<^verbatim>\<open>None\<close>, in the order of the
  log, and the empty list when no event matches. The function takes the store and
  returns a list only: the source assigns to no attribute of the store.
\<close>

theorem snapshot_recent:
  assumes "1 \<le> limit"
  shows "get_recent_events s r limit =
           drop (length (filter (\<lambda>e. user_id e = Some r \<or> user_id e = None) (events s)) - nat limit)
             (filter (\<lambda>e. user_id e = Some r \<or> user_id e = None) (events s))
         \<and> suffix (get_recent_events s r limit)
             (filter (\<lambda>e. user_id e = Some r \<or> user_id e = None) (events s))
         \<and> length (get_recent_events s r limit) =
             min (nat limit) (length (filter (\<lambda>e. user_id e = Some r \<or> user_id e = None) (events s)))
         \<and> ((\<forall>e \<in> set (events s). user_id e \<noteq> Some r \<and> user_id e \<noteq> None) \<longrightarrow>
              get_recent_events s r limit = [])"
proof -
  let ?m = "filter (\<lambda>e. user_id e = Some r \<or> user_id e = None) (events s)"
  have m: "filter (matches r) (events s) = ?m"
    by (simp add: matches_def [abs_def])
  have "0 < nat limit" using assms by simp
  then have "slice_from ?m (- int (nat limit)) = drop (length ?m - nat limit) ?m"
    by (rule slice_from_neg)
  then have eq: "get_recent_events s r limit = drop (length ?m - nat limit) ?m"
    using assms by (simp add: get_recent_events_def Let_def m)
  have e: "?m = []" if "\<forall>e \<in> set (events s). user_id e \<noteq> Some r \<and> user_id e \<noteq> None"
    using that by (simp add: filter_empty_conv)
  show ?thesis
    using e by (auto simp only: eq suffix_drop length_drop min_def split: if_splits) auto
qed

theorem snapshot_recent_witness:
  "(1::int) \<le> 10
   \<and> get_recent_events (store_of (publish_event init_store hi_event)) ''u1'' 10 = [hi_event]
   \<and> event_type hi_event = MESSAGE_RECEIVED \<and> data hi_event = [(''text'', ''hi'')]"
  using snapshot_recent [of 10 "store_of (publish_event init_store hi_event)" "''u1''"]
  by (simp add: publish_events append_event_drop init_store_def log_capacity_def hi_event_def new_event_def)

text \<open>
  C9. With limit 0 the slice \<^verbatim>\<open>[-0:]\<close> is the whole list, so every matching event
  is returned; with a negative limit \<open>- k\<close> the slice \<^verbatim>\<open>[k:]\<close> drops the first \<open>k\<close>
  matching events and returns the rest.
\<close>

theorem snapshot_nonpositive_limit:
  "get_recent_events s r 0 = filter (\<lambda>e. user_id e = Some r \<or> user_id e = None) (events s)
   \<and> get_recent_events s r (- int k) =
       drop k (filter (\<lambda>e. user_id e = Some r \<or> user_id e = None) (events s))"
proof -
  have m: "filter (matches r) (events s) = filter (\<lambda>e. user_id e = Some r \<or> user_id e = None) (events s)"
    by (simp add: matches_def [abs_def])
  have "get_recent_events s r (- int k) = slice_from (filter (matches r) (events s)) (int k)"
    by (simp add: get_recent_events_def Let_def)
  moreover have "get_recent_events s r 0 = slice_from (filter (matches r) (events s)) (int 0)"
    by (simp add: get_recent_events_def Let_def)
  ultimately show ?thesis
    by (simp only: slice_from_nonneg m drop_0)
qed

subsection \<open>Fan-out\<close>

lemma notify_other:
  "q \<notin> set qs \<Longrightarrow> queues (store_of (notify s qs e)) q = queues s q"
  by (induction qs arbitrary: s) (auto simp: queue_put_def)

lemma notify_room:
  "(\<forall>x \<in> set qs. length (queues s x) + count_list qs x \<le> queue_maxsize) \<Longrightarrow>
   notify s qs e = Returned (s\<lparr>queues := (\<lambda>x. queues s x @ replicate (count_list qs x) e)\<rparr>)"
proof (induction qs arbitrary: s)
  case Nil
  then show ?case by simp
next
  case (Cons q qs)
  let ?s1 = "s\<lparr>queues := (queues s)(q := queues s q @ [e])\<rparr>"
  from Cons.prems have room: "length (queues s q) < queue_maxsize" by auto
  have "\<forall>x \<in> set qs. length (queues ?s1 x) + count_list qs x \<le> queue_maxsize"
    using Cons.prems by auto
  from Cons.IH [OF this]
  have "notify ?s1 qs e = Returned (?s1\<lparr>queues := (\<lambda>x. queues ?s1 x @ replicate (count_list qs x) e)\<rparr>)" .
  moreover have "(\<lambda>x. queues ?s1 x @ replicate (count_list qs x) e)
      = (\<lambda>x. queues s x @ replicate (count_list (q # qs) x) e)"
    by (rule ext) (simp add: replicate_app_Cons_same)
  ultimately show ?case using room by (simp add: queue_put_def)
qed

lemma notify_Returned:
  "notify s qs e = Returned s' \<Longrightarrow>
   s' = s\<lparr>queues := (\<lambda>x. queues s x @ replicate (count_list qs x) e)\<rparr>"
proof (induction qs arbitrary: s)
  case Nil
  then show ?case by simp
next
  case (Cons q qs)
  let ?s1 = "s\<lparr>queues := (queues s)(q := queues s q @ [e])\<rparr>"
  from Cons.prems have n: "notify ?s1 qs e = Returned s'"
    by (simp add: queue_put_def split: if_splits)
  have "(\<lambda>x. queues ?s1 x @ replicate (count_list qs x) e)
      = (\<lambda>x. queues s x @ replicate (count_list (q # qs) x) e)"
    by (rule ext) (simp add: replicate_app_Cons_same)
  with Cons.IH [OF n] show ?case by simp
qed

lemma notify_full:
  "\<exists>x \<in> set qs. queue_maxsize \<le> length (queues s x) \<Longrightarrow> \<not> is_Returned (notify s qs e)"
proof (induction qs arbitrary: s)
  case Nil
  then show ?case by simp
next
  case (Cons q qs)
  show ?case
  proof (cases "queue_maxsize \<le> length (queues s q)")
    case True
    then show ?thesis by (simp add: queue_put_def)
  next
    case False
    let ?s1 = "s\<lparr>queues := (queues s)(q := queues s q @ [e])\<rparr>"
    from False Cons.prems have "\<exists>x \<in> set qs. queue_maxsize \<le> length (queues ?s1 x)"
      by auto
    from Cons.IH [OF this] False show ?thesis by (simp add: queue_put_def)
  qed
qed

lemma count_list_distinct: "distinct xs \<Longrightarrow> x \<in> set xs \<Longrightarrow> count_list xs x = 1"
  by (induction xs) auto

lemma count_list_pos: "x \<in> set xs \<Longrightarrow> 0 < count_list xs x"
  by (induction xs) auto

lemma publish_other:
  "q \<notin> set (channels s (routing_key e)) \<Longrightarrow> queues (store_of (publish_event s e)) q = queues s q"
  by (simp add: publish_event_def Let_def channels_def notify_other split: option.splits)

lemma publish_room:
  assumes "\<forall>x \<in> set (channels s (routing_key e)).
             length (queues s x) + count_list (channels s (routing_key e)) x \<le> queue_maxsize"
  shows "publish_event s e =
    Returned (s\<lparr>events := append_event (events s) e,
                queues := (\<lambda>x. queues s x @ replicate (count_list (channels s (routing_key e)) x) e)\<rparr>)"
proof (cases "subscribers s (routing_key e)")
  case None
  then show ?thesis by (simp add: publish_event_def Let_def channels_def)
next
  case (Some qs)
  let ?s1 = "s\<lparr>events := append_event (events s) e\<rparr>"
  have "\<forall>x \<in> set qs. length (queues ?s1 x) + count_list qs x \<le> queue_maxsize"
    using assms Some by (simp add: channels_def)
  from notify_room [OF this, of e] Some show ?thesis
    by (simp add: publish_event_def Let_def channels_def)
qed

lemma publish_Returned:
  assumes "publish_event s e = Returned s'"
  shows "queues s' = (\<lambda>x. queues s x @ replicate (count_list (channels s (routing_key e)) x) e)"
proof (cases "subscribers s (routing_key e)")
  case None
  with assms show ?thesis by (auto simp add: publish_event_def Let_def channels_def)
next
  case (Some qs)
  with assms have "notify (s\<lparr>events := append_event (events s) e\<rparr>) qs e = Returned s'"
    by (simp add: publish_event_def Let_def)
  from notify_Returned [OF this] Some show ?thesis by (simp add: channels_def)
qed

lemma publish_full:
  "\<exists>x \<in> set (channels s (routing_key e)). queue_maxsize \<le> length (queues s x) \<Longrightarrow>
   \<not> is_Returned (publish_event s e)"
proof (cases "subscribers s (routing_key e)")
  case None
  assume "\<exists>x \<in> set (channels s (routing_key e)). queue_maxsize \<le> length (queues s x)"
  with None show ?thesis by (simp add: channels_def)
next
  case (Some qs)
  assume "\<exists>x \<in> set (channels s (routing_key e)). queue_maxsize \<le> length (queues s x)"
  with Some have "\<exists>x \<in> set qs. queue_maxsize \<le> length (queues (s\<lparr>events := append_event (events s) e\<rparr>) x)"
    by (simp add: channels_def)
  from notify_full [OF this, of e] Some show ?thesis
    by (simp add: publish_event_def Let_def)
qed

lemma append_event_snoc: "append_event es e = drop (Suc (length es) - log_capacity) es @ [e]"
  by (simp add: append_event_drop log_capacity_def)

lemma last_in_slice: "0 \<le> l \<Longrightarrow> x \<in> set (slice_from (xs @ [x]) (- l))"
  by (auto simp add: slice_from_def Let_def max_def)


lemma u1_store_simps:
  "subscribers u1_store = [''u1'' \<mapsto> [0]]" "queues u1_store = (\<lambda>_. [])" "events u1_store = []"
  "fst (subscribe (init_store :: payload EventStore) ''u1'') = 0"
  by (auto simp add: u1_store_def subscribe_def init_store_def Let_def)

text \<open>
  C1. The code at the input of the scenario: \<^verbatim>\<open>subscribe("u1")\<close> on the initial store
  returns the queue 0; a publish for \<^verbatim>\<open>"u2"\<close> returns and leaves that queue empty;
  a publish with \<^verbatim>\<open>user_id = None\<close> returns and leaves it empty too, because the
  event goes to the queues under \<^verbatim>\<open>"global"\<close> only.
\<close>

theorem broadcast_not_delivered_to_user_channel:
  "fst (subscribe (init_store :: payload EventStore) ''u1'') = 0
   \<and> is_Returned (publish_event u1_store u2_event)
   \<and> queues (store_of (publish_event u1_store u2_event)) 0 = []
   \<and> is_Returned (publish_event u1_store broadcast_event)
   \<and> queues (store_of (publish_event u1_store broadcast_event)) 0 = []"
  by (simp add: u1_store_simps publish_event_def Let_def routing_key_def
      u2_event_def broadcast_event_def new_event_def)

text \<open>
  C2, as stated, fails: with two queues registered for \<^verbatim>\<open>"u1"\<close>, the first holding
  100 events, \<^verbatim>\<open>publish_event\<close> does not return; the publisher waits in \<^verbatim>\<open>put\<close> on
  the first queue, and the second queue has not received the event.
\<close>

theorem publish_suspends_on_full_channel:
  "\<not> is_Returned (publish_event full_store hi_event)
   \<and> blocked_on (publish_event full_store hi_event) = 0
   \<and> pending (publish_event full_store hi_event) = [1]
   \<and> queues (store_of (publish_event full_store hi_event)) 1 = []"
  by (simp add: full_store_def publish_event_def Let_def routing_key_def queue_put_def
      queue_maxsize_def hi_event_def new_event_def)

text \<open>
  C2, amended. When the queues registered under the routing key of the event are
  pairwise different and each holds fewer than 100 events, \<^verbatim>\<open>publish_event\<close> returns
  without waiting, every one of those queues has the event appended and no other queue
  changes; when the routing key has no entry it returns after the append to the log.
\<close>

theorem publish_returns_when_room:
  "(distinct (channels s (routing_key e))
      \<and> (\<forall>q \<in> set (channels s (routing_key e)). length (queues s q) < 100) \<longrightarrow>
    is_Returned (publish_event s e)
      \<and> (\<forall>q \<in> set (channels s (routing_key e)).
            queues (store_of (publish_event s e)) q = queues s q @ [e])
      \<and> (\<forall>q. q \<notin> set (channels s (routing_key e)) \<longrightarrow>
            queues (store_of (publish_event s e)) q = queues s q))
   \<and> (subscribers s (routing_key e) = None \<longrightarrow>
        publish_event s e = Returned (s\<lparr>events := append_event (events s) e\<rparr>))"
proof -
  have a: "is_Returned (publish_event s e)
      \<and> (\<forall>q \<in> set (channels s (routing_key e)).
            queues (store_of (publish_event s e)) q = queues s q @ [e])"
    if d: "distinct (channels s (routing_key e))"
      and r: "\<forall>q \<in> set (channels s (routing_key e)). length (queues s q) < 100"
  proof -
    have "\<forall>x \<in> set (channels s (routing_key e)).
             length (queues s x) + count_list (channels s (routing_key e)) x \<le> queue_maxsize"
      using d r by (auto simp add: count_list_distinct queue_maxsize_def)
    from publish_room [OF this] d show ?thesis
      by (simp add: count_list_distinct)
  qed
  have b: "publish_event s e = Returned (s\<lparr>events := append_event (events s) e\<rparr>)"
    if "subscribers s (routing_key e) = None"
    using that by (simp add: publish_event_def Let_def)
  show ?thesis using a b publish_other [of _ s e] by blast
qed

theorem publish_returns_when_room_witness:
  "distinct (channels u1_store (routing_key hi_event))
   \<and> channels u1_store (routing_key hi_event) = [0]
   \<and> length (queues u1_store 0) < 100
   \<and> is_Returned (publish_event u1_store hi_event)
   \<and> queues (store_of (publish_event u1_store hi_event)) 0 = [hi_event]
   \<and> queues (store_of (publish_event u1_store hi_event)) 1 = []
   \<and> subscribers (init_store :: payload EventStore) (routing_key hi_event) = None
   \<and> is_Returned (publish_event init_store hi_event)"
proof -
  have k: "routing_key hi_event = ''u1''"
    by (simp add: routing_key_def hi_event_def new_event_def)
  have c: "channels u1_store ''u1'' = [0]"
    by (simp add: channels_def u1_store_simps)
  have n: "subscribers (init_store :: payload EventStore) ''u1'' = None"
    by (simp add: init_store_def)
  show ?thesis
    using publish_returns_when_room [of u1_store hi_event]
      publish_returns_when_room [of init_store hi_event]
    by (simp add: k c n u1_store_simps)
qed

text \<open>
  C10. An event whose \<^verbatim>\<open>user_id\<close> is the empty string has the routing key
  \<^verbatim>\<open>"global"\<close>: no queue outside the list under \<^verbatim>\<open>"global"\<close> changes (so none that is
  registered under \<^verbatim>\<open>""\<close> only), and when the publish returns every queue under
  \<^verbatim>\<open>"global"\<close> has received the event. The log filter compares with equality, so
  \<^verbatim>\<open>get_recent_events("", limit)\<close> contains the event for every limit from 0 on.
\<close>

theorem empty_recipient_routed_as_broadcast:
  assumes "user_id e = Some []"
  shows "routing_key e = ''global''
   \<and> (\<forall>q. q \<notin> set (channels s ''global'') \<longrightarrow>
         queues (store_of (publish_event s e)) q = queues s q)
   \<and> (is_Returned (publish_event s e) \<longrightarrow>
        (\<forall>q \<in> set (channels s ''global'').
           queues (store_of (publish_event s e)) q
             = queues s q @ replicate (count_list (channels s ''global'') q) e
           \<and> 0 < count_list (channels s ''global'') q))
   \<and> (0 \<le> limit \<longrightarrow> e \<in> set (get_recent_events (store_of (publish_event s e)) [] limit))"
proof -
  have k: "routing_key e = ''global''"
    using assms by (simp add: routing_key_def)
  have a: "queues (store_of (publish_event s e)) q = queues s q" if "q \<notin> set (channels s ''global'')" for q
    using that publish_other [of q s e] by (simp add: k)
  have b: "queues (store_of (publish_event s e)) q
             = queues s q @ replicate (count_list (channels s ''global'') q) e"
    if "is_Returned (publish_event s e)" for q
  proof -
    from that obtain s' where r: "publish_event s e = Returned s'"
      by (cases "publish_event s e") auto
    from publish_Returned [OF r] r show ?thesis by (simp add: k)
  qed
  have c: "0 < count_list (channels s ''global'') q" if "q \<in> set (channels s ''global'')" for q
    using that by (rule count_list_pos)
  have d: "e \<in> set (get_recent_events (store_of (publish_event s e)) [] limit)" if "0 \<le> limit"
  proof -
    have "filter (matches []) (events (store_of (publish_event s e)))
        = filter (matches []) (drop (Suc (length (events s)) - log_capacity) (events s)) @ [e]"
      using assms by (simp add: publish_events append_event_snoc matches_def)
    then show ?thesis
      using last_in_slice [OF that] by (simp add: get_recent_events_def Let_def)
  qed
  show ?thesis using k a b c d by blast
qed

lemma two_key_store_simps:
  "subscribers two_key_store = [[] \<mapsto> [0], ''global'' \<mapsto> [1]]"
  "queues two_key_store = (\<lambda>_. [])" "events two_key_store = []"
  by (auto simp add: two_key_store_def subscribe_def init_store_def Let_def)

theorem empty_recipient_routed_as_broadcast_witness:
  "user_id empty_uid_event = Some []
   \<and> channels two_key_store [] = [0] \<and> channels two_key_store ''global'' = [1]
   \<and> is_Returned (publish_event two_key_store empty_uid_event)
   \<and> queues (store_of (publish_event two_key_store empty_uid_event)) 0 = []
   \<and> queues (store_of (publish_event two_key_store empty_uid_event)) 1 = [empty_uid_event]
   \<and> (0::int) \<le> 10
   \<and> empty_uid_event \<in> set (get_recent_events (store_of (publish_event two_key_store empty_uid_event)) [] 10)"
proof -
  have u: "user_id empty_uid_event = Some []"
    by (simp add: empty_uid_event_def new_event_def)
  have c: "channels two_key_store [] = [0]" "channels two_key_store ''global'' = [1]"
    by (simp_all add: channels_def two_key_store_simps)
  have r: "is_Returned (publish_event two_key_store empty_uid_event)"
    by (simp add: publish_event_def Let_def routing_key_def u two_key_store_simps queue_put_def queue_maxsize_def)
  show ?thesis
    using empty_recipient_routed_as_broadcast [OF u, of two_key_store 10] r
    by (simp add: u c two_key_store_simps)
qed

subsection \<open>The registry and the streaming connections\<close>

lemma subscribe_eq:
  "subscribe s uid =
     (next_qid s,
      s\<lparr>subscribers := (subscribers s)(uid \<mapsto> channels s uid @ [next_qid s]),
        queues := (queues s)(next_qid s := []),
        next_qid := Suc (next_qid s)\<rparr>)"
  by (simp add: subscribe_def channels_def Let_def split: option.splits)

lemma unsubscribe_eq:
  "unsubscribe s uid q =
     Inr (if q \<in> set (channels s uid) then
            s\<lparr>subscribers :=
                 (if remove1 q (channels s uid) = [] then (subscribers s)(uid := None)
                  else (subscribers s)(uid \<mapsto> remove1 q (channels s uid)))\<rparr>
          else s)"
  by (cases "subscribers s uid")
     (simp_all add: unsubscribe_def unsubscribe_body_def list_remove_def dict_del_def
        channels_def Let_def dom_def)

lemma channels_unsubscribe:
  "channels (projr (unsubscribe s uid q)) k =
     (if k = uid then remove1 q (channels s uid) else channels s k)"
  by (auto simp add: unsubscribe_eq channels_def remove1_idem split: option.splits)

lemma mem_channels:
  "q \<in> set (channels s k) \<longleftrightarrow> (\<exists>qs. subscribers s k = Some qs \<and> q \<in> set qs)"
  by (cases "subscribers s k") (simp_all add: channels_def)

lemma channels_Some: "subscribers s k = Some qs \<Longrightarrow> channels s k = qs"
  by (simp add: channels_def)

lemma registered_channels: "registered s q \<longleftrightarrow> (\<exists>k. q \<in> set (channels s k))"
  unfolding registered_def mem_channels by blast

lemma store_ok_channels: "store_ok s \<longleftrightarrow> (\<forall>k. \<forall>q \<in> set (channels s k). q < next_qid s)"
  unfolding store_ok_def by (metis mem_channels)

lemma conn_ok_channels:
  "conn_ok s c \<longleftrightarrow>
     (\<forall>q. conn_queue c = Some q \<longrightarrow>
        conn_pc c \<noteq> Not_started \<and> q < next_qid s \<and>
        (\<forall>k. q \<in> set (channels s k) \<longrightarrow>
           k = conn_user c \<and> conn_pc c \<noteq> Finished \<and> count_list (channels s k) q = 1))"
proof (cases "conn_queue c")
  case None
  then show ?thesis by (simp add: conn_ok_def)
next
  case (Some q)
  have "(\<forall>k qs. subscribers s k = Some qs \<and> q \<in> set qs \<longrightarrow>
             k = conn_user c \<and> conn_pc c \<noteq> Finished \<and> count_list qs q = 1)
      \<longleftrightarrow> (\<forall>k. q \<in> set (channels s k) \<longrightarrow>
           k = conn_user c \<and> conn_pc c \<noteq> Finished \<and> count_list (channels s k) q = 1)"
    by (metis mem_channels channels_Some)
  with Some show ?thesis by (simp add: conn_ok_def)
qed

lemma conn_okD:
  assumes "conn_ok s c" and "conn_queue c = Some q" and "q \<in> set (channels s k)"
  shows "k = conn_user c" and "conn_pc c \<noteq> Finished" and "count_list (channels s k) q = 1"
  using assms unfolding conn_ok_channels by blast+

lemma channels_subscribe:
  "channels (snd (subscribe s uid)) k = (if k = uid then channels s uid @ [next_qid s] else channels s k)"
  by (simp add: subscribe_eq channels_def)

lemma next_qid_subscribe: "next_qid (snd (subscribe s uid)) = Suc (next_qid s)"
  by (simp add: subscribe_eq)

lemma fst_subscribe: "fst (subscribe s uid) = next_qid s"
  by (simp add: subscribe_eq)

lemma next_qid_unsubscribe: "next_qid (projr (unsubscribe s uid q)) = next_qid s"
  by (simp add: unsubscribe_eq)

lemma channels_queues_update [simp]: "channels (s\<lparr>queues := f\<rparr>) k = channels s k"
  by (simp add: channels_def)

lemma count_list_remove1_other: "x \<noteq> y \<Longrightarrow> count_list (remove1 y xs) x = count_list xs x"
  by (induction xs) auto

lemma count_list_remove1_same: "x \<in> set xs \<Longrightarrow> Suc (count_list (remove1 x xs) x) = count_list xs x"
  by (induction xs) auto

lemma remove1_count_one: "count_list xs q = 1 \<Longrightarrow> q \<notin> set (remove1 q xs)"
proof -
  assume one: "count_list xs q = 1"
  then have "q \<in> set xs"
    using count_list_0_iff [of xs q] by auto
  then have "Suc (count_list (remove1 q xs) q) = count_list xs q"
    by (rule count_list_remove1_same)
  with one have "count_list (remove1 q xs) q = 0" by simp
  then show ?thesis using count_list_0_iff [of "remove1 q xs" q] by blast
qed

lemma in_remove1D: "p \<in> set (remove1 q xs) \<Longrightarrow> p \<in> set xs"
  using notin_set_remove1 by fastforce

lemma subscribe_store_ok: "store_ok s \<Longrightarrow> store_ok (snd (subscribe s uid))"
  by (auto simp add: store_ok_channels channels_subscribe next_qid_subscribe less_Suc_eq)

lemma subscribe_conn_ok_other: "store_ok s \<Longrightarrow> conn_ok s d \<Longrightarrow> conn_ok (snd (subscribe s uid)) d"
  unfolding conn_ok_channels store_ok_channels
  by (auto simp add: channels_subscribe next_qid_subscribe less_Suc_eq split: if_splits)

lemma subscribe_conn_ok_new:
  assumes "store_ok s" and "conn_user c = uid" and "conn_queue c = Some (next_qid s)"
    and "conn_pc c \<noteq> Finished" and "conn_pc c \<noteq> Not_started"
  shows "conn_ok (snd (subscribe s uid)) c"
proof -
  have fresh: "next_qid s \<notin> set (channels s k)" for k
    using assms(1) by (auto simp add: store_ok_channels)
  show ?thesis
    using assms fresh
    by (auto simp add: conn_ok_channels channels_subscribe next_qid_subscribe split: if_splits)
qed

lemma unsubscribe_store_ok: "store_ok s \<Longrightarrow> store_ok (projr (unsubscribe s uid q))"
  by (auto simp add: store_ok_channels channels_unsubscribe next_qid_unsubscribe
      dest: notin_set_remove1 split: if_splits)

lemma unsubscribe_conn_ok_other:
  assumes "conn_ok s d"
  shows "conn_ok (projr (unsubscribe s uid q)) d"
proof (cases "conn_queue d")
  case None
  then show ?thesis by (simp add: conn_ok_def)
next
  case (Some p)
  have "k = conn_user d \<and> conn_pc d \<noteq> Finished
          \<and> count_list (channels (projr (unsubscribe s uid q)) k) p = 1"
    if m: "p \<in> set (channels (projr (unsubscribe s uid q)) k)" for k
  proof (cases "k = uid")
    case False
    with m assms Some show ?thesis
      by (simp add: conn_ok_channels channels_unsubscribe)
  next
    case True
    with m have in_rm: "p \<in> set (remove1 q (channels s uid))"
      by (simp add: channels_unsubscribe)
    then have in_old: "p \<in> set (channels s uid)"
      by (rule in_remove1D)
    have old: "uid = conn_user d" "conn_pc d \<noteq> Finished"
      "count_list (channels s uid) p = 1"
      using conn_okD [OF assms Some in_old] by simp_all
    have "p \<noteq> q"
      using remove1_count_one [OF old(3)] in_rm by blast
    then show ?thesis
      using old True by (simp add: channels_unsubscribe count_list_remove1_other)
  qed
  with assms Some show ?thesis
    by (simp add: conn_ok_channels next_qid_unsubscribe)
qed

lemma unsubscribe_conn_ok_finished:
  assumes "conn_ok s c" and "conn_queue c = Some q"
  shows "conn_ok (projr (unsubscribe s (conn_user c) q)) (c\<lparr>conn_pc := Finished\<rparr>)"
proof -
  have "q \<notin> set (channels (projr (unsubscribe s (conn_user c) q)) k)" for k
  proof
    assume m: "q \<in> set (channels (projr (unsubscribe s (conn_user c) q)) k)"
    have ok: "conn_ok (projr (unsubscribe s (conn_user c) q)) c"
      using assms(1) by (rule unsubscribe_conn_ok_other)
    have k: "k = conn_user c"
      using conn_okD(1) [OF ok assms(2) m] .
    from m k have in_rm: "q \<in> set (remove1 q (channels s (conn_user c)))"
      by (simp add: channels_unsubscribe)
    then have in_old: "q \<in> set (channels s (conn_user c))"
      by (rule in_remove1D)
    have "count_list (channels s (conn_user c)) q = 1"
      using conn_okD(3) [OF assms in_old] .
    from remove1_count_one [OF this] in_rm show False by blast
  qed
  with assms show ?thesis
    by (simp add: conn_ok_channels next_qid_unsubscribe)
qed


lemma finish_eq:
  "finish s c =
     ((case conn_queue c of None \<Rightarrow> s | Some q \<Rightarrow> projr (unsubscribe s (conn_user c) q)),
      c\<lparr>conn_pc := Finished\<rparr>)"
  by (cases "conn_queue c") (simp_all add: finish_def unsubscribe_eq)

lemma store_ok_queues [simp]: "store_ok (s\<lparr>queues := f\<rparr>) = store_ok s"
  by (simp add: store_ok_def)

lemma conn_ok_queues [simp]: "conn_ok (s\<lparr>queues := f\<rparr>) c = conn_ok s c"
  by (cases "conn_queue c") (simp_all add: conn_ok_def)

lemma conn_ok_moved:
  "conn_ok s c \<Longrightarrow> p \<noteq> Finished \<Longrightarrow> p \<noteq> Not_started \<Longrightarrow> conn_ok s (c\<lparr>conn_pc := p, conn_out := out\<rparr>)"
  by (auto simp add: conn_ok_def split: option.splits)

lemma conn_ok_moved':
  "conn_ok s c \<Longrightarrow> p \<noteq> Finished \<Longrightarrow> p \<noteq> Not_started \<Longrightarrow> conn_ok s (c\<lparr>conn_pc := p\<rparr>)"
  by (auto simp add: conn_ok_def split: option.splits)

lemma conn_ok_unstarted: "conn_queue c = None \<Longrightarrow> conn_ok s (c\<lparr>conn_pc := p\<rparr>)"
  by (simp add: conn_ok_def)

lemma finish_inv:
  assumes "store_ok s" and "conn_ok s c" and "finish s c = (s', c')"
  shows "store_ok s' \<and> conn_ok s' c' \<and> (\<forall>d. conn_ok s d \<longrightarrow> conn_ok s' d)"
proof (cases "conn_queue c")
  case None
  with assms show ?thesis by (auto simp add: finish_eq conn_ok_def)
next
  case (Some q)
  with assms(3) have s': "s' = projr (unsubscribe s (conn_user c) q)"
    and c': "c' = c\<lparr>conn_pc := Finished\<rparr>"
    by (simp_all add: finish_eq)
  show ?thesis
    unfolding s' c'
    using assms(1,2) Some
    by (simp add: unsubscribe_store_ok unsubscribe_conn_ok_other unsubscribe_conn_ok_finished)
qed

lemma step_ok_finish: "store_ok s \<Longrightarrow> conn_ok s c \<Longrightarrow> step_ok s c (finish s c)"
  using finish_inv [of s c "fst (finish s c)" "snd (finish s c)"] by (simp add: step_ok_def)

lemma step_ok_same: "store_ok s \<Longrightarrow> conn_ok s c \<Longrightarrow> step_ok s c (s, c)"
  by (simp add: step_ok_def)

lemma step_ok_moved:
  "store_ok s \<Longrightarrow> conn_ok s c \<Longrightarrow> p \<noteq> Finished \<Longrightarrow> p \<noteq> Not_started \<Longrightarrow>
     step_ok s c (s, c\<lparr>conn_pc := p\<rparr>)"
  "store_ok s \<Longrightarrow> conn_ok s c \<Longrightarrow> p \<noteq> Finished \<Longrightarrow> p \<noteq> Not_started \<Longrightarrow>
     step_ok s c (s, c\<lparr>conn_pc := p, conn_out := out\<rparr>)"
  by (simp_all add: step_ok_def conn_ok_moved conn_ok_moved')

lemma step_ok_start:
  assumes "store_ok s"
  shows "step_ok s c (snd (subscribe s (conn_user c)),
           c\<lparr>conn_pc := Yield_connected, conn_queue := Some (next_qid s), conn_out := out\<rparr>)"
proof -
  have "conn_ok (snd (subscribe s (conn_user c)))
          (c\<lparr>conn_pc := Yield_connected, conn_queue := Some (next_qid s), conn_out := out\<rparr>)"
    using assms by (intro subscribe_conn_ok_new) simp_all
  then show ?thesis
    using assms by (simp add: step_ok_def subscribe_store_ok subscribe_conn_ok_other)
qed

lemma step_ok_take:
  assumes "store_ok s" and "conn_ok s c"
  shows "step_ok s c (finish (s\<lparr>queues := f\<rparr>) c)"
    and "step_ok s c (s\<lparr>queues := f\<rparr>, c\<lparr>conn_pc := Yield_event, conn_out := out\<rparr>)"
proof -
  have "step_ok (s\<lparr>queues := f\<rparr>) c (finish (s\<lparr>queues := f\<rparr>) c)"
    using assms by (intro step_ok_finish) simp_all
  then show "step_ok s c (finish (s\<lparr>queues := f\<rparr>) c)"
    by (simp add: step_ok_def)
  show "step_ok s c (s\<lparr>queues := f\<rparr>, c\<lparr>conn_pc := Yield_event, conn_out := out\<rparr>)"
    using assms by (simp add: step_ok_def conn_ok_moved)
qed

lemma step_ok_unstarted_closed:
  "store_ok s \<Longrightarrow> conn_ok s c \<Longrightarrow> conn_pc c = Not_started \<Longrightarrow>
   step_ok s c (s, c\<lparr>conn_pc := Finished\<rparr>)"
  by (cases "conn_queue c") (auto simp add: step_ok_def conn_ok_def)

lemma gen_step_inv:
  assumes "store_ok s" and "conn_ok s c"
  shows "step_ok s c (gen_step dumps (s, c) sig)"
proof (cases "conn_pc c")
  case Not_started
  with assms show ?thesis
    by (cases sig)
       (simp_all add: step_ok_same step_ok_unstarted_closed subscribe_eq
          step_ok_start [unfolded subscribe_eq, simplified])
next
  case Yield_connected
  with assms show ?thesis
    by (cases sig) (simp_all add: step_ok_same step_ok_moved step_ok_finish)
next
  case Waiting
  with assms show ?thesis
    by (cases sig)
       (simp_all add: step_ok_same step_ok_moved step_ok_finish step_ok_take Let_def
          split: option.splits list.splits)
next
  case Yield_event
  with assms show ?thesis
    by (cases sig) (simp_all add: step_ok_same step_ok_moved step_ok_finish)
next
  case Yield_heartbeat
  with assms show ?thesis
    by (cases sig) (simp_all add: step_ok_same step_ok_moved step_ok_finish)
next
  case Finished
  with assms show ?thesis
    by (cases sig) (simp_all add: step_ok_same)
qed


lemma publish_store_ok: "store_ok s \<Longrightarrow> store_ok (store_of (publish_event s e))"
  by (simp add: store_ok_def)

lemma publish_conn_ok: "conn_ok s c \<Longrightarrow> conn_ok (store_of (publish_event s e)) c"
  by (cases "conn_queue c") (auto simp add: conn_ok_def)

lemma sys_step_inv:
  assumes "sys_inv sys"
  shows "sys_inv (sys_step dumps sys a)"
proof (cases a)
  case (Open uid)
  with assms show ?thesis
    by (auto simp add: sys_inv_def new_connection_def conn_ok_def)
next
  case (Publish e)
  with assms show ?thesis
    by (simp add: sys_inv_def publish_store_ok publish_conn_ok)
next
  case (Gen i sig)
  show ?thesis
  proof (cases "i < length (conns sys)")
    case False
    with Gen assms show ?thesis by simp
  next
    case True
    let ?r = "gen_step dumps (store sys, conns sys ! i) sig"
    from assms True have ok: "store_ok (store sys)" "conn_ok (store sys) (conns sys ! i)"
      by (simp_all add: sys_inv_def)
    from gen_step_inv [OF ok, of dumps sig]
    have r: "store_ok (fst ?r)" "conn_ok (fst ?r) (snd ?r)"
      "\<And>d. conn_ok (store sys) d \<Longrightarrow> conn_ok (fst ?r) d"
      by (simp_all add: step_ok_def)
    have "conn_ok (fst ?r) d" if "d \<in> set ((conns sys)[i := snd ?r])" for d
    proof -
      from that have "d = snd ?r \<or> d \<in> set (conns sys)"
        using set_update_subset_insert [of "conns sys" i "snd ?r"] by auto
      with r(2,3) assms show ?thesis by (auto simp add: sys_inv_def)
    qed
    with r(1) Gen True show ?thesis
      by (simp add: sys_inv_def split_beta)
  qed
qed

lemma init_inv: "sys_inv init_system"
  by (simp add: sys_inv_def init_system_def init_store_def store_ok_def)

lemma run_inv: "sys_inv sys \<Longrightarrow> sys_inv (run dumps sys acts)"
  unfolding run_def
  by (induction acts arbitrary: sys) (simp_all add: sys_step_inv)

text \<open>
  C7. In every state the process reaches from its start, by any sequence of opened
  connections, generator steps and publishes, a generator that has finished (closed at
  a \<^verbatim>\<open>yield\<close>, cancelled or failed at the \<^verbatim>\<open>await\<close>, or stopped by an exception
  in the loop body) no longer has its queue in the registry, under any user. Every way
  to reach \<open>Finished\<close> after the \<^verbatim>\<open>subscribe\<close> goes through the \<^verbatim>\<open>finally\<close> clause.
\<close>

theorem finished_stream_unregistered:
  "\<forall>c \<in> set (conns (run dumps init_system acts)). \<forall>q.
     conn_pc c = Finished \<and> conn_queue c = Some q \<longrightarrow>
       \<not> registered (store (run dumps init_system acts)) q
       \<and> q \<notin> set (channels (store (run dumps init_system acts)) (conn_user c))"
proof (intro ballI allI impI)
  fix c q
  assume c: "c \<in> set (conns (run dumps init_system acts))"
    and f: "conn_pc c = Finished \<and> conn_queue c = Some q"
  have "sys_inv (run dumps init_system acts)"
    using init_inv by (rule run_inv)
  with c have "conn_ok (store (run dumps init_system acts)) c"
    by (simp add: sys_inv_def)
  with f have "\<forall>k. q \<notin> set (channels (store (run dumps init_system acts)) k)"
    using conn_okD(2) by blast
  then show "\<not> registered (store (run dumps init_system acts)) q
       \<and> q \<notin> set (channels (store (run dumps init_system acts)) (conn_user c))"
    by (simp add: registered_channels)
qed

lemma close_trace_run:
  "conns (run dumps_id init_system close_trace) =
     [\<lparr>conn_user = ''u1'', conn_pc = Finished, conn_queue = Some 0,
       conn_out = [Connected_chunk ''u1'', Event_chunk (event_id hi_event)]\<rparr>]"
  "subscribers (store (run dumps_id init_system close_trace)) = Map.empty"
  "channels (store (run dumps_id init_system (butlast close_trace))) ''u1'' = [0]"
  by (simp_all add: run_def close_trace_def init_system_def init_store_def new_connection_def
      subscribe_def Let_def publish_event_def routing_key_def queue_put_def queue_maxsize_def
      finish_def unsubscribe_def unsubscribe_body_def list_remove_def dumps_id_def
      channels_def hi_event_def new_event_def dict_del_def)


theorem finished_stream_unregistered_witness:
  "conns (run dumps_id init_system close_trace) =
     [\<lparr>conn_user = ''u1'', conn_pc = Finished, conn_queue = Some 0,
       conn_out = [Connected_chunk ''u1'', Event_chunk (event_id hi_event)]\<rparr>]
   \<and> channels (store (run dumps_id init_system (butlast close_trace))) ''u1'' = [0]
   \<and> \<not> registered (store (run dumps_id init_system close_trace)) 0
   \<and> 0 \<notin> set (channels (store (run dumps_id init_system close_trace)) ''u1'')"
proof -
  let ?c = "\<lparr>conn_user = ''u1'', conn_pc = Finished, conn_queue = Some (0::nat),
       conn_out = [Connected_chunk ''u1'', Event_chunk (event_id hi_event)]\<rparr>"
  have "?c \<in> set (conns (run dumps_id init_system close_trace))"
    by (simp add: close_trace_run(1))
  with finished_stream_unregistered [of dumps_id close_trace]
  have "\<not> registered (store (run dumps_id init_system close_trace)) 0
       \<and> 0 \<notin> set (channels (store (run dumps_id init_system close_trace)) (conn_user ?c))"
    by fastforce
  then show ?thesis
    by (simp add: close_trace_run)
qed

text \<open>
  C6. \<^verbatim>\<open>unsubscribe\<close> never raises. On a queue that is not registered under the user
  (also when the user has no entry) it leaves the store as it is, so a second call
  after a removal changes nothing when the list held the queue once. A removal that
  empties the list deletes the key, the entries of other users are untouched, and a
  registry without empty lists stays without empty lists.
\<close>

theorem unsubscribe_idempotent:
  "\<not> isl (unsubscribe s uid q)
   \<and> (q \<notin> set (channels s uid) \<longrightarrow> unsubscribe s uid q = Inr s)
   \<and> (distinct (channels s uid) \<longrightarrow>
        unsubscribe (projr (unsubscribe s uid q)) uid q = unsubscribe s uid q)
   \<and> (q \<in> set (channels s uid) \<longrightarrow>
        subscribers (projr (unsubscribe s uid q)) uid =
          (if remove1 q (channels s uid) = [] then None else Some (remove1 q (channels s uid))))
   \<and> (\<forall>k. k \<noteq> uid \<longrightarrow> subscribers (projr (unsubscribe s uid q)) k = subscribers s k)
   \<and> ((\<forall>k. subscribers s k \<noteq> Some []) \<longrightarrow>
        (\<forall>k. subscribers (projr (unsubscribe s uid q)) k \<noteq> Some []))
   \<and> events (projr (unsubscribe s uid q)) = events s
   \<and> queues (projr (unsubscribe s uid q)) = queues s"
proof -
  have a: "\<not> isl (unsubscribe s uid q)"
    by (simp add: unsubscribe_eq)
  have b: "unsubscribe s uid q = Inr s" if "q \<notin> set (channels s uid)"
    using that by (simp add: unsubscribe_eq)
  have c: "unsubscribe (projr (unsubscribe s uid q)) uid q = unsubscribe s uid q"
    if "distinct (channels s uid)"
  proof -
    have "q \<notin> set (channels (projr (unsubscribe s uid q)) uid)"
      using that by (simp add: channels_unsubscribe)
    then have "unsubscribe (projr (unsubscribe s uid q)) uid q = Inr (projr (unsubscribe s uid q))"
      by (simp add: unsubscribe_eq [of "projr (unsubscribe s uid q)"])
    also have "\<dots> = unsubscribe s uid q"
      using a by (cases "unsubscribe s uid q") simp_all
    finally show ?thesis .
  qed
  have d: "subscribers (projr (unsubscribe s uid q)) uid =
          (if remove1 q (channels s uid) = [] then None else Some (remove1 q (channels s uid)))"
    if "q \<in> set (channels s uid)"
    using that by (simp add: unsubscribe_eq)
  have e: "subscribers (projr (unsubscribe s uid q)) k = subscribers s k" if "k \<noteq> uid" for k
    using that by (simp add: unsubscribe_eq)
  have f: "subscribers (projr (unsubscribe s uid q)) k \<noteq> Some []"
    if "\<forall>k. subscribers s k \<noteq> Some []" for k
    using that by (simp add: unsubscribe_eq)
  have g: "events (projr (unsubscribe s uid q)) = events s"
    "queues (projr (unsubscribe s uid q)) = queues s"
    by (simp_all add: unsubscribe_eq)
  show ?thesis using a b c d e f g by blast
qed

theorem unsubscribe_idempotent_witness:
  "distinct (channels u1_store ''u1'')
   \<and> 0 \<in> set (channels u1_store ''u1'')
   \<and> subscribers (projr (unsubscribe u1_store ''u1'' 0)) ''u1'' = None
   \<and> unsubscribe (projr (unsubscribe u1_store ''u1'' 0)) ''u1'' 0 = unsubscribe u1_store ''u1'' 0
   \<and> channels u1_store ''u2'' = []
   \<and> unsubscribe u1_store ''u2'' 0 = Inr u1_store
   \<and> subscribers (projr (unsubscribe u1_store ''u2'' 0)) ''u1'' = Some [0]"
proof -
  have c: "channels u1_store ''u1'' = [0]" "channels u1_store ''u2'' = []"
    by (simp_all add: channels_def u1_store_simps)
  show ?thesis
    using unsubscribe_idempotent [of u1_store "''u1''" 0]
      unsubscribe_idempotent [of u1_store "''u2''" 0]
    by (simp add: c u1_store_simps)
qed

(*PROOFS*)

end
